theory Spec2Isabelle
  imports Main "HOL-Library.Char_ord" "HOL-Library.List_Lexorder"
begin

section \<open>Strings (Go package strings, restricted to ASCII bytes)\<close>

text \<open>
  A Go string is a byte sequence; it is modelled as \<open>string\<close> (a list of 8-bit characters).
  The functions of package \<open>strings\<close> that the exclusion matcher and the collector call are
  written out below. \<open>ToLower\<close> and \<open>TrimSpace\<close> are the Go functions on strings of ASCII
  bytes (\<open>isASCII\<close>): there Go lowers the letters A to Z and trims the six ASCII white-space
  bytes, as written here. On a string with a byte above 127 Go also folds Unicode letters
  and trims Unicode white space, which these definitions do not do; a statement whose truth
  depends on it carries the hypothesis \<open>isASCII\<close>, and the examples are ASCII strings.
  The path separator is the Unix one.
\<close>

definition isASCII :: "string \<Rightarrow> bool" where
  "isASCII s = (\<forall>c \<in> set s. (of_char c :: nat) < 128)"

definition osSep :: string where
  "osSep = ''/''"

definition HasPrefix :: "string \<Rightarrow> string \<Rightarrow> bool" where
  "HasPrefix s p = (take (length p) s = p)"

definition HasSuffix :: "string \<Rightarrow> string \<Rightarrow> bool" where
  "HasSuffix s p = (length p \<le> length s \<and> drop (length s - length p) s = p)"

definition TrimSuffix :: "string \<Rightarrow> string \<Rightarrow> string" where
  "TrimSuffix s p = (if HasSuffix s p then take (length s - length p) s else s)"

fun Contains :: "string \<Rightarrow> string \<Rightarrow> bool" where
  "Contains [] sub = (sub = [])"
| "Contains (c # s) sub = (HasPrefix (c # s) sub \<or> Contains s sub)"

definition ContainsAny :: "string \<Rightarrow> string \<Rightarrow> bool" where
  "ContainsAny s chars = (\<exists>c \<in> set s. c \<in> set chars)"

definition ReplaceAll_sep :: "string \<Rightarrow> string" where
  \<comment> \<open>\<open>strings.ReplaceAll(s, "/", osSep)\<close>: every slash becomes the separator of the platform\<close>
  "ReplaceAll_sep s = concat (map (\<lambda>c. if c = CHR ''/'' then osSep else [c]) s)"

definition isSpace :: "char \<Rightarrow> bool" where
  "isSpace c = (c = CHR '' '' \<or> c = CHR 0x09 \<or> c = CHR 0x0A \<or> c = CHR 0x0B
                \<or> c = CHR 0x0C \<or> c = CHR 0x0D)"

definition TrimSpace :: "string \<Rightarrow> string" where
  "TrimSpace s = rev (dropWhile isSpace (rev (dropWhile isSpace s)))"

definition lowerChar :: "char \<Rightarrow> char" where
  "lowerChar c = (let n = (of_char c :: nat) in if 65 \<le> n \<and> n \<le> 90 then char_of (n + 32) else c)"

definition ToLower :: "string \<Rightarrow> string" where
  "ToLower s = map lowerChar s"

section \<open>Lexical path functions (Go package path/filepath, Unix)\<close>

fun splitSep :: "string \<Rightarrow> string list" where
  "splitSep [] = [[]]"
| "splitSep (c # s) =
     (if c = CHR ''/'' then [] # splitSep s
      else (case splitSep s of [] \<Rightarrow> [[c]] | w # ws \<Rightarrow> (c # w) # ws))"

fun joinSep :: "string list \<Rightarrow> string" where
  "joinSep [] = []"
| "joinSep [w] = w"
| "joinSep (w # ws) = w @ CHR ''/'' # joinSep ws"

text \<open>
  \<open>cleanSegs rooted acc segs\<close> applies the rules of \<open>filepath.Clean\<close> to the elements of a
  path: empty elements and \<open>.\<close> vanish, \<open>..\<close> removes the element before it, a \<open>..\<close> that
  would climb above the root vanishes, and a leading \<open>..\<close> of a relative path stays.
  \<open>acc\<close> holds the elements kept so far, last first.
\<close>

fun cleanSegs :: "bool \<Rightarrow> string list \<Rightarrow> string list \<Rightarrow> string list" where
  "cleanSegs rooted acc [] = rev acc"
| "cleanSegs rooted acc (s # ss) =
     (if s = [] \<or> s = ''.'' then cleanSegs rooted acc ss
      else if s = ''..'' then
        (case acc of
           [] \<Rightarrow> if rooted then cleanSegs rooted [] ss else cleanSegs rooted [''..''] ss
         | a # acc' \<Rightarrow> if a = ''..'' then cleanSegs rooted (''..'' # acc) ss
                       else cleanSegs rooted acc' ss)
      else cleanSegs rooted (s # acc) ss)"

definition IsAbs :: "string \<Rightarrow> bool" where
  "IsAbs p = (case p of [] \<Rightarrow> False | c # _ \<Rightarrow> c = CHR ''/'')"

definition Clean :: "string \<Rightarrow> string" where
  "Clean p =
     (let body = joinSep (cleanSegs (IsAbs p) [] (splitSep p))
      in if IsAbs p then CHR ''/'' # body else if body = [] then ''.'' else body)"

definition Join :: "string \<Rightarrow> string \<Rightarrow> string" where
  \<comment> \<open>\<open>filepath.Join(a, b)\<close>: empty elements are ignored, the rest is joined and cleaned\<close>
  "Join a b =
     (if a = [] \<and> b = [] then []
      else if a = [] then Clean b
      else if b = [] then Clean a
      else Clean (a @ CHR ''/'' # b))"

definition Base :: "string \<Rightarrow> string" where
  "Base p =
     (if p = [] then ''.''
      else let q = dropWhile (\<lambda>c. c = CHR ''/'') (rev p);
               b = rev (takeWhile (\<lambda>c. c \<noteq> CHR ''/'') q)
           in if b = [] then ''/'' else b)"

definition Rel_dot :: "string \<Rightarrow> string option" where
  \<comment> \<open>\<open>filepath.Rel(".", targ)\<close>; \<open>None\<close> is the error "can't make targ relative to ."\<close>
  "Rel_dot targpath =
     (let targ = Clean targpath
      in if targ = ''.'' then Some ''.''
         else if IsAbs targ then None
         else Some targ)"

section \<open>filepath.Match\<close>

text \<open>
  The glob matcher of the Go standard library, as its source is written: the pattern is cut
  into chunks at the stars (\<open>scanChunk\<close>), a chunk is matched at the start of the name
  (\<open>matchChunk\<close>), and a chunk after a star is tried at every later position up to the next
  separator. A malformed pattern is the error \<open>ErrBadPattern\<close>. Runes are bytes here.
\<close>

definition backslash :: char where
  "backslash = CHR 0x5C"

fun scanLoop :: "bool \<Rightarrow> string \<Rightarrow> nat" where
  "scanLoop inrange [] = 0"
| "scanLoop inrange (c # p) =
     (if c = backslash then
        (case p of [] \<Rightarrow> 1 | _ # p' \<Rightarrow> 2 + scanLoop inrange p')
      else if c = CHR ''['' then 1 + scanLoop True p
      else if c = CHR '']'' then 1 + scanLoop False p
      else if c = CHR ''*'' \<and> \<not> inrange then 0
      else 1 + scanLoop inrange p)"

definition scanChunk :: "string \<Rightarrow> bool \<times> string \<times> string" where
  "scanChunk pattern =
     (let p = dropWhile (\<lambda>c. c = CHR ''*'') pattern;
          star = (pattern \<noteq> [] \<and> hd pattern = CHR ''*'');
          i = scanLoop False p
      in (star, take i p, drop i p))"

fun getEsc :: "string \<Rightarrow> (char \<times> string) option" where
  "getEsc [] = None"
| "getEsc (c # cs) =
     (if c = CHR ''-'' \<or> c = CHR '']'' then None
      else if c = backslash then
        (case cs of [] \<Rightarrow> None | r # n \<Rightarrow> if n = [] then None else Some (r, n))
      else if cs = [] then None else Some (c, cs))"

lemma getEsc_shorter: "getEsc chunk = Some (r, n) \<Longrightarrow> length n < length chunk"
  by (cases chunk) (auto split: if_splits list.splits)

lemma getEsc_nonempty: "getEsc chunk = Some (r, n) \<Longrightarrow> n \<noteq> []"
  by (cases chunk) (auto split: if_splits list.splits)

function parseClass :: "char \<Rightarrow> string \<Rightarrow> nat \<Rightarrow> bool \<Rightarrow> (bool \<times> string) option" where
  "parseClass r chunk nrange match =
     (if chunk \<noteq> [] \<and> hd chunk = CHR '']'' \<and> 0 < nrange then Some (match, tl chunk)
      else
        (case getEsc chunk of
           None \<Rightarrow> None
         | Some (lo, chunk1) \<Rightarrow>
             (if hd chunk1 = CHR ''-'' then
                (case getEsc (tl chunk1) of
                   None \<Rightarrow> None
                 | Some (hi, chunk2) \<Rightarrow>
                     parseClass r chunk2 (nrange + 1) (match \<or> (lo \<le> r \<and> r \<le> hi)))
              else parseClass r chunk1 (nrange + 1) (match \<or> (lo \<le> r \<and> r \<le> lo)))))"
  by pat_completeness auto
termination
proof (relation "measure (\<lambda>(r, chunk, nrange, match). length chunk)")
  show "wf (measure (\<lambda>(r, chunk, nrange, match). length chunk))" by simp
next
  fix r :: char and chunk :: string and nrange :: nat and match :: bool
    and x2 :: "char \<times> string" and lo :: char and chunk1 :: string
    and x2a :: "char \<times> string" and hi :: char and chunk2 :: string
  assume "getEsc chunk = Some x2" "(lo, chunk1) = x2"
    and "getEsc (tl chunk1) = Some x2a" "(hi, chunk2) = x2a"
  then have a: "length chunk1 < length chunk" and b: "length chunk2 < length (tl chunk1)"
    using getEsc_shorter by metis+
  from a b show "((r, chunk2, nrange + 1, match \<or> lo \<le> r \<and> r \<le> hi), r, chunk, nrange, match)
        \<in> measure (\<lambda>(r, chunk, nrange, match). length chunk)"
    by simp
next
  fix r :: char and chunk :: string and nrange :: nat and match :: bool
    and x2 :: "char \<times> string" and lo :: char and chunk1 :: string
  assume "getEsc chunk = Some x2" "(lo, chunk1) = x2"
  then have "length chunk1 < length chunk"
    using getEsc_shorter by metis
  then show "((r, chunk1, nrange + 1, match \<or> lo \<le> r \<and> r \<le> lo), r, chunk, nrange, match)
        \<in> measure (\<lambda>(r, chunk, nrange, match). length chunk)"
    by simp
qed

declare parseClass.simps [simp del]

lemma parseClass_shorter:
  "parseClass r chunk nrange match = Some (b, rest) \<Longrightarrow> length rest < length chunk"
proof (induction r chunk nrange match rule: parseClass.induct)
  case (1 r chunk nrange match)
  note unf = "1.prems" [unfolded parseClass.simps [of r chunk nrange match]]
  show ?case
  proof (cases "chunk \<noteq> [] \<and> hd chunk = CHR '']'' \<and> 0 < nrange")
    case True
    with unf show ?thesis by (cases chunk) auto
  next
    case False
    then obtain lo chunk1 where g1: "getEsc chunk = Some (lo, chunk1)"
      using unf by (auto split: option.splits)
    have l1: "length chunk1 < length chunk" using g1 by (rule getEsc_shorter)
    show ?thesis
    proof (cases "hd chunk1 = CHR ''-''")
      case dash: True
      then obtain hi chunk2 where g2: "getEsc (tl chunk1) = Some (hi, chunk2)"
        using unf False g1 by (auto split: option.splits)
      have l2: "length chunk2 < length (tl chunk1)" using g2 by (rule getEsc_shorter)
      have "parseClass r chunk2 (nrange + 1) (match \<or> (lo \<le> r \<and> r \<le> hi)) = Some (b, rest)"
        using unf False g1 dash g2 by simp
      then have "length rest < length chunk2"
        using "1.IH"(1) [OF False g1 refl dash g2 refl] by simp
      with l1 l2 show ?thesis by simp
    next
      case nodash: False
      have "parseClass r chunk1 (nrange + 1) (match \<or> (lo \<le> r \<and> r \<le> lo)) = Some (b, rest)"
        using unf False g1 nodash by simp
      then have "length rest < length chunk1"
        using "1.IH"(2) [OF False g1 refl nodash] by simp
      with l1 show ?thesis by simp
    qed
  qed
qed

datatype chunk_result = ChunkErr | ChunkFail | ChunkOk string

text \<open>
  \<open>matchChunk chunk s failed\<close>: the third argument is the local variable \<open>failed\<close> of the Go
  function, which starts as false. After the match has failed the chunk is still read to its
  end, so that a malformed chunk is reported.
\<close>

function matchChunk :: "string \<Rightarrow> string \<Rightarrow> bool \<Rightarrow> chunk_result" where
  "matchChunk [] s failed = (if failed then ChunkFail else ChunkOk s)"
| "matchChunk (c # chunk) s failed0 =
     (let failed = (failed0 \<or> s = []) in
      if c = CHR ''['' then
        (let r = (if failed then CHR 0x00 else hd s);
             s' = (if failed then s else tl s);
             negated = (chunk \<noteq> [] \<and> hd chunk = CHR ''^'');
             chunk1 = (if negated then tl chunk else chunk)
         in case parseClass r chunk1 0 False of
              None \<Rightarrow> ChunkErr
            | Some (match, chunk2) \<Rightarrow> matchChunk chunk2 s' (failed \<or> match = negated))
      else if c = CHR ''?'' then
        (if failed then matchChunk chunk s True
         else matchChunk chunk (tl s) (hd s = CHR ''/''))
      else if c = backslash then
        (case chunk of
           [] \<Rightarrow> ChunkErr
         | c' # chunk' \<Rightarrow>
             (if failed then matchChunk chunk' s True
              else matchChunk chunk' (tl s) (c' \<noteq> hd s)))
      else
        (if failed then matchChunk chunk s True
         else matchChunk chunk (tl s) (c \<noteq> hd s)))"
  by pat_completeness auto
termination
  by (relation "measure (\<lambda>(chunk, s, failed). length chunk)")
     (auto dest!: parseClass_shorter split: if_splits)

declare matchChunk.simps [simp del]

text \<open>The search after a star: the chunk is tried after each byte that is not a separator.\<close>

datatype star_result = StarErr | StarNone | StarFound string

fun starLoop :: "string \<Rightarrow> bool \<Rightarrow> string \<Rightarrow> star_result" where
  "starLoop chunk lastChunk [] = StarNone"
| "starLoop chunk lastChunk (c # name') =
     (if c = CHR ''/'' then StarNone
      else
        (case matchChunk chunk name' False of
           ChunkOk t \<Rightarrow> if lastChunk \<and> t \<noteq> [] then starLoop chunk lastChunk name'
                        else StarFound t
         | ChunkErr \<Rightarrow> StarErr
         | ChunkFail \<Rightarrow> starLoop chunk lastChunk name'))"

lemma scanLoop_pos: "p \<noteq> [] \<Longrightarrow> hd p \<noteq> CHR ''*'' \<Longrightarrow> 0 < scanLoop False p"
  by (cases p) (auto split: list.splits)

lemma scanChunk_shorter:
  assumes "pattern \<noteq> []" and "scanChunk pattern = (star, chunk, rest)"
  shows "length rest < length pattern"
proof -
  define p where "p = dropWhile (\<lambda>c. c = CHR ''*'') pattern"
  have rest: "rest = drop (scanLoop False p) p"
    using assms(2) by (simp add: scanChunk_def p_def Let_def)
  have le: "length p \<le> length pattern"
    unfolding p_def by (rule length_dropWhile_le)
  show ?thesis
  proof (cases "hd pattern = CHR ''*''")
    case True
    with assms(1) have "length p < length pattern"
      unfolding p_def by (cases pattern) (auto simp: less_Suc_eq_le length_dropWhile_le)
    then show ?thesis using rest by simp
  next
    case False
    with assms(1) have pp: "p = pattern" unfolding p_def by (cases pattern) auto
    then have "0 < scanLoop False p" using scanLoop_pos assms(1) False by simp
    then show ?thesis using rest pp assms(1) by simp
  qed
qed

function validRest :: "string \<Rightarrow> bool" where
  "validRest pattern =
     (if pattern = [] then True
      else
        (case scanChunk pattern of
           (star, chunk, rest) \<Rightarrow>
             (case matchChunk chunk [] False of
                ChunkErr \<Rightarrow> False
              | _ \<Rightarrow> validRest rest)))"
  by pat_completeness auto
termination
  by (relation "measure length") (auto dest: scanChunk_shorter [OF _ sym])

declare validRest.simps [simp del]

text \<open>\<open>Match pattern name\<close>: \<open>None\<close> is the error \<open>ErrBadPattern\<close>.\<close>

function Match :: "string \<Rightarrow> string \<Rightarrow> bool option" where
  "Match pattern name =
     (if pattern = [] then Some (name = [])
      else
        (case scanChunk pattern of
           (star, chunk, rest) \<Rightarrow>
             if star \<and> chunk = [] then Some (CHR ''/'' \<notin> set name)
             else
               (case matchChunk chunk name False of
                  ChunkErr \<Rightarrow> None
                | r \<Rightarrow>
                    (if (case r of ChunkOk t \<Rightarrow> t = [] \<or> rest \<noteq> [] | _ \<Rightarrow> False)
                     then Match rest (case r of ChunkOk t \<Rightarrow> t | _ \<Rightarrow> [])
                     else if star then
                       (case starLoop chunk (rest = []) name of
                          StarFound t \<Rightarrow> Match rest t
                        | StarErr \<Rightarrow> None
                        | StarNone \<Rightarrow> if validRest rest then Some False else None)
                     else if validRest rest then Some False else None))))"
  by pat_completeness auto
termination
  by (relation "measure (\<lambda>(pattern, name). length pattern)")
     (auto dest: scanChunk_shorter [OF _ sym])

declare Match.simps [simp del]

section \<open>Package exclude: the exclusion matcher\<close>

text \<open>
  The compiled gitignore rule set comes from a library outside this repository; the matcher
  holds either no rule set (\<open>None\<close>, the nil pointer) or the predicate \<open>MatchesPath\<close> of the
  compiled rule set.
\<close>

record ExcludeMatcher =
  gitignoreMatcher :: "(string \<Rightarrow> bool) option"
  globPatterns :: "string list"
  ignoreCase :: bool

definition hasGlobChars :: "string \<Rightarrow> bool" where
  "hasGlobChars s = ContainsAny s ''*?[''"

definition exclude_matchPath :: "string \<Rightarrow> string \<Rightarrow> bool" where
  \<comment> \<open>\<open>ok, _ := filepath.Match(pattern, target); return ok\<close>\<close>
  "exclude_matchPath pattern target = (case Match pattern target of Some ok \<Rightarrow> ok | None \<Rightarrow> False)"

definition lower :: "bool \<Rightarrow> string \<Rightarrow> string" where
  \<comment> \<open>the closure \<open>lower\<close> of \<open>ShouldExclude\<close>, over the flag of the matcher\<close>
  "lower ic s = (if ic then ToLower s else s)"

text \<open>
  The loop of \<open>ShouldExclude\<close> over the ad-hoc patterns. The result \<open>True\<close> is a
  \<open>return true\<close> inside the loop; every \<open>continue\<close> is the recursive call on the remaining
  patterns; leaving the loop is \<open>False\<close>.
\<close>

fun globLoop :: "bool \<Rightarrow> string \<Rightarrow> string \<Rightarrow> bool \<Rightarrow> string list \<Rightarrow> bool" where
  "globLoop ic relCmp baseCmp isDir [] = False"
| "globLoop ic relCmp baseCmp isDir (raw # rest) =
     (let pat = TrimSpace raw in
      if pat = [] then globLoop ic relCmp baseCmp isDir rest
      else
        (let pat' = ReplaceAll_sep pat;
             patCmp = lower ic pat'
         in if HasSuffix patCmp osSep then
              (let dirPat = TrimSuffix patCmp osSep in
               if \<not> hasGlobChars dirPat \<and> \<not> Contains dirPat osSep then
                 (if isDir \<and> (relCmp = dirPat \<or> relCmp = dirPat @ osSep) then True
                  else if HasPrefix relCmp (dirPat @ osSep) then True
                  else if Contains relCmp (osSep @ dirPat @ osSep) then True
                  else globLoop ic relCmp baseCmp isDir rest)
               else
                 (let dirAny = dirPat @ osSep @ ''*'' in
                  if exclude_matchPath dirAny relCmp then True
                  else globLoop ic relCmp baseCmp isDir rest))
            else if Contains patCmp osSep then
              (if exclude_matchPath patCmp relCmp then
                 (if \<not> isDir then True else globLoop ic relCmp baseCmp isDir rest)
               else globLoop ic relCmp baseCmp isDir rest)
            else if \<not> isDir \<and> exclude_matchPath patCmp baseCmp then True
            else globLoop ic relCmp baseCmp isDir rest))"

definition relPathOf :: "string \<Rightarrow> string" where
  \<comment> \<open>\<open>relPath, err := filepath.Rel(".", path); if err != nil { relPath = path }\<close>\<close>
  "relPathOf path = (case Rel_dot path of Some r \<Rightarrow> r | None \<Rightarrow> path)"

definition ShouldExclude :: "ExcludeMatcher \<Rightarrow> string \<Rightarrow> bool \<Rightarrow> bool" where
  "ShouldExclude m path isDir =
     (let relPath = relPathOf path;
          relNorm = ReplaceAll_sep relPath;
          base = Base relNorm;
          relCmp = lower (ignoreCase m) relNorm;
          baseCmp = lower (ignoreCase m) base
      in if (case gitignoreMatcher m of None \<Rightarrow> False | Some matchesPath \<Rightarrow> matchesPath relNorm)
         then True
         else globLoop (ignoreCase m) relCmp baseCmp isDir (globPatterns m))"

section \<open>Properties of the exclusion matcher\<close>

lemma globLoop_blank:
  "\<forall>raw \<in> set pats. TrimSpace raw = [] \<Longrightarrow> globLoop ic relCmp baseCmp isDir pats = False"
  by (induction pats) simp_all

text \<open>
  C10. A matcher with no gitignore rule set, whose ad-hoc patterns are all empty or made of
  white space only (in particular a matcher with no pattern at all), excludes nothing:
  \<open>ShouldExclude\<close> is false for every path, file or directory.
\<close>

theorem ShouldExclude_default_excludes_nothing:
  assumes "gitignoreMatcher m = None"
    and "\<forall>raw \<in> set (globPatterns m). TrimSpace raw = []"
  shows "ShouldExclude m path isDir = False"
  using assms by (simp add: ShouldExclude_def Let_def globLoop_blank)

theorem ShouldExclude_default_excludes_nothing_witness:
  "ShouldExclude \<lparr>gitignoreMatcher = None, globPatterns = ['''', ''  ''], ignoreCase = False\<rparr>
     ''src/main.go'' False = False"
  using ShouldExclude_default_excludes_nothing
    [of "\<lparr>gitignoreMatcher = None, globPatterns = ['''', ''  ''], ignoreCase = False\<rparr>"
        "''src/main.go''" False]
  by (simp add: TrimSpace_def isSpace_def)

lemma ReplaceAll_sep_id [simp]: "ReplaceAll_sep s = s"
  by (induction s) (simp_all add: ReplaceAll_sep_def osSep_def)

lemma globLoop_single:
  "globLoop ic r b d (raw # rest) = (globLoop ic r b d [raw] \<or> globLoop ic r b d rest)"
  by (simp add: Let_def)

lemma globLoop_exists:
  "globLoop ic r b d pats = (\<exists>raw \<in> set pats. globLoop ic r b d [raw])"
proof (induction pats)
  case Nil
  then show ?case by simp
next
  case (Cons raw rest)
  show ?case
    unfolding globLoop_single [of ic r b d raw rest] Cons.IH by auto
qed

lemma lowerChar_eq_iff:
  assumes "(of_char k :: nat) < 65 \<or> (90 < (of_char k :: nat) \<and> (of_char k :: nat) < 97)
           \<or> 122 < (of_char k :: nat)"
  shows "lowerChar c = k \<longleftrightarrow> c = k"
proof -
  have "lowerChar c \<noteq> k" if "65 \<le> (of_char c :: nat)" "(of_char c :: nat) \<le> 90" "c \<noteq> k"
  proof
    assume e: "lowerChar c = k"
    then have "(of_char k :: nat) = of_char (char_of (of_char c + 32 :: nat))"
      using that by (simp add: lowerChar_def Let_def)
    also have "\<dots> = of_char c + 32" using that by (simp add: of_char_of)
    finally have "97 \<le> (of_char k :: nat) \<and> (of_char k :: nat) \<le> 122" using that by simp
    with assms show False by linarith
  qed
  moreover have "lowerChar k = k" using assms by (auto simp: lowerChar_def Let_def)
  moreover have "lowerChar c = c" if "\<not> (65 \<le> (of_char c :: nat) \<and> (of_char c :: nat) \<le> 90)"
    using that by (auto simp: lowerChar_def Let_def)
  ultimately show ?thesis by (cases "65 \<le> (of_char c :: nat) \<and> (of_char c :: nat) \<le> 90") auto
qed

lemma lowerChar_sep [simp]: "lowerChar c = CHR ''/'' \<longleftrightarrow> c = CHR ''/''"
  by (rule lowerChar_eq_iff) simp

lemma lowerChar_dot [simp]: "lowerChar c = CHR ''.'' \<longleftrightarrow> c = CHR ''.''"
  by (rule lowerChar_eq_iff) simp

lemma lowerChar_fix_sep [simp]: "lowerChar CHR ''/'' = CHR ''/''"
  by (simp add: lowerChar_def)

lemma splitSep_nonempty [simp]: "splitSep s \<noteq> []"
  by (induction s) (auto split: list.splits)

lemma splitSep_ToLower: "splitSep (ToLower s) = map ToLower (splitSep s)"
proof (induction s)
  case Nil
  then show ?case by (simp add: ToLower_def)
next
  case (Cons c s)
  then show ?case
    by (cases "splitSep s") (auto simp: ToLower_def)
qed

lemma ToLower_eq_dot [simp]: "ToLower s = ''.'' \<longleftrightarrow> s = ''.''"
  by (cases s) (auto simp: ToLower_def)

lemma ToLower_eq_dotdot [simp]: "ToLower s = ''..'' \<longleftrightarrow> s = ''..''"
  by (cases s; cases "tl s") (auto simp: ToLower_def)

lemma ToLower_eq_Nil [simp]: "ToLower s = [] \<longleftrightarrow> s = []"
  by (simp add: ToLower_def)

lemma ToLower_dotdot: "ToLower ''..'' = ''..''"
  by (simp add: ToLower_def lowerChar_def)

lemma cleanSegs_ToLower:
  "cleanSegs rooted (map ToLower acc) (map ToLower ss) = map ToLower (cleanSegs rooted acc ss)"
proof (induction ss arbitrary: acc)
  case Nil
  then show ?case by (simp add: rev_map)
next
  case (Cons s ss)
  note ih = Cons.IH
  show ?case
  proof (cases "s = [] \<or> s = ''.''")
    case True
    then show ?thesis using ih [of acc] by auto
  next
    case False
    note ns = False
    show ?thesis
    proof (cases "s = ''..''")
      case True
      show ?thesis
      proof (cases acc)
        case Nil
        then show ?thesis
          using True ih [of "[]"] ih [of "[''..'']"]
          by (cases rooted) (simp_all add: ToLower_dotdot)
      next
        case (Cons a acc')
        then show ?thesis
          using True ih [of "''..'' # acc"] ih [of acc']
          by (cases "a = ''..''") (simp_all add: ToLower_dotdot)
      qed
    next
      case False
      then show ?thesis using ns ih [of "s # acc"] by simp
    qed
  qed
qed

lemma joinSep_ToLower: "joinSep (map ToLower ws) = ToLower (joinSep ws)"
  by (induction ws rule: joinSep.induct) (simp_all add: ToLower_def)

lemma IsAbs_ToLower [simp]: "IsAbs (ToLower p) = IsAbs p"
  by (cases p) (simp_all add: IsAbs_def ToLower_def)

lemma Clean_ToLower: "Clean (ToLower p) = ToLower (Clean p)"
proof -
  have "joinSep (cleanSegs (IsAbs p) [] (splitSep (ToLower p)))
        = ToLower (joinSep (cleanSegs (IsAbs p) [] (splitSep p)))"
    using cleanSegs_ToLower [of "IsAbs p" "[]" "splitSep p"]
    by (simp add: splitSep_ToLower joinSep_ToLower)
  then show ?thesis
    by (simp add: Clean_def Let_def) (simp add: ToLower_def lowerChar_def)
qed

lemma relPathOf_ToLower: "relPathOf (ToLower p) = ToLower (relPathOf p)"
  by (simp add: relPathOf_def Rel_dot_def Let_def Clean_ToLower) (simp add: ToLower_def lowerChar_def)

lemma dropWhile_lowerChar:
  assumes "\<And>c. P (lowerChar c) = P c"
  shows "dropWhile P (map lowerChar xs) = map lowerChar (dropWhile P xs)"
  by (induction xs) (simp_all add: assms)

lemma takeWhile_lowerChar:
  assumes "\<And>c. P (lowerChar c) = P c"
  shows "takeWhile P (map lowerChar xs) = map lowerChar (takeWhile P xs)"
  by (induction xs) (simp_all add: assms)

lemma Base_ToLower: "Base (ToLower p) = ToLower (Base p)"
proof -
  have 1: "dropWhile (\<lambda>c. c = CHR ''/'') (map lowerChar q)
         = map lowerChar (dropWhile (\<lambda>c. c = CHR ''/'') q)" for q
    by (rule dropWhile_lowerChar) simp
  have 2: "takeWhile (\<lambda>c. c \<noteq> CHR ''/'') (map lowerChar q)
         = map lowerChar (takeWhile (\<lambda>c. c \<noteq> CHR ''/'') q)" for q
    by (rule takeWhile_lowerChar) simp
  have s: "map lowerChar ''/'' = ''/''" "map lowerChar ''.'' = ''.''"
    by (simp_all add: lowerChar_def)
  show ?thesis
    unfolding Base_def Let_def ToLower_def rev_map 1 2
    by (simp add: s rev_map del: list.map)
qed

lemma isSpace_lowerChar [simp]: "isSpace (lowerChar c) = isSpace c"
  unfolding isSpace_def
  by (simp add: lowerChar_eq_iff)

lemma TrimSpace_ToLower: "TrimSpace (ToLower s) = ToLower (TrimSpace s)"
proof -
  have d: "dropWhile isSpace (map lowerChar xs) = map lowerChar (dropWhile isSpace xs)" for xs
    by (rule dropWhile_lowerChar) simp
  show ?thesis by (simp add: TrimSpace_def ToLower_def d rev_map)
qed

lemma globLoop_ToLower:
  "globLoop True r b d pats = globLoop False r b d (map ToLower pats)"
proof (induction pats)
  case Nil
  then show ?case by simp
next
  case (Cons raw rest)
  show ?case
    unfolding globLoop_single [of True r b d raw rest]
      list.map globLoop_single [of False r b d "ToLower raw" "map ToLower rest"] Cons.IH
    by (simp add: Let_def TrimSpace_ToLower lower_def)
qed

text \<open>
  C7. The pattern \<open>*.LOG\<close> excludes the file \<open>x.log\<close> exactly when the flag \<open>ignoreCase\<close> of
  the matcher is set, and excludes the file \<open>x.LOG\<close> whatever the flag. In general, for
  patterns and a candidate made of ASCII bytes, the case-insensitive matcher answers as the
  case-sensitive matcher does on the lowercased patterns and the lowercased candidate: the
  matching rules themselves are the same.
\<close>

theorem ignoreCase_lowercases_both_sides:
  "ShouldExclude \<lparr>gitignoreMatcher = None, globPatterns = [''*.LOG''], ignoreCase = ic\<rparr>
      ''x.log'' False = ic
   \<and> ShouldExclude \<lparr>gitignoreMatcher = None, globPatterns = [''*.LOG''], ignoreCase = ic\<rparr>
      ''x.LOG'' False
   \<and> (isASCII path \<and> (\<forall>raw \<in> set pats. isASCII raw) \<longrightarrow>
        ShouldExclude \<lparr>gitignoreMatcher = None, globPatterns = pats, ignoreCase = True\<rparr> path isDir
      = ShouldExclude \<lparr>gitignoreMatcher = None, globPatterns = map ToLower pats, ignoreCase = False\<rparr>
          (ToLower path) isDir)"
proof (intro conjI impI)
  have a: "ShouldExclude \<lparr>gitignoreMatcher = None, globPatterns = [''*.LOG''], ignoreCase = True\<rparr>
      ''x.log'' False = True" by code_simp
  have b: "ShouldExclude \<lparr>gitignoreMatcher = None, globPatterns = [''*.LOG''], ignoreCase = False\<rparr>
      ''x.log'' False = False" by code_simp
  show "ShouldExclude \<lparr>gitignoreMatcher = None, globPatterns = [''*.LOG''], ignoreCase = ic\<rparr>
      ''x.log'' False = ic"
    using a b by (cases ic) simp_all
next
  have a: "ShouldExclude \<lparr>gitignoreMatcher = None, globPatterns = [''*.LOG''], ignoreCase = True\<rparr>
      ''x.LOG'' False" by code_simp
  have b: "ShouldExclude \<lparr>gitignoreMatcher = None, globPatterns = [''*.LOG''], ignoreCase = False\<rparr>
      ''x.LOG'' False" by code_simp
  show "ShouldExclude \<lparr>gitignoreMatcher = None, globPatterns = [''*.LOG''], ignoreCase = ic\<rparr>
      ''x.LOG'' False"
    using a b by (cases ic) simp_all
next
  show "ShouldExclude \<lparr>gitignoreMatcher = None, globPatterns = pats, ignoreCase = True\<rparr> path isDir
     = ShouldExclude \<lparr>gitignoreMatcher = None, globPatterns = map ToLower pats, ignoreCase = False\<rparr>
         (ToLower path) isDir"
    by (simp add: ShouldExclude_def Let_def lower_def relPathOf_ToLower Base_ToLower
        globLoop_ToLower)
qed

theorem ignoreCase_lowercases_both_sides_witness:
  "ShouldExclude \<lparr>gitignoreMatcher = None, globPatterns = [''Build/'', ''*.TMP''], ignoreCase = True\<rparr>
      ''SRC/build/Out.tmp'' False
   = ShouldExclude \<lparr>gitignoreMatcher = None, globPatterns = [''build/'', ''*.tmp''], ignoreCase = False\<rparr>
      ''src/build/out.tmp'' False"
proof -
  have p: "map ToLower [''Build/'', ''*.TMP''] = [''build/'', ''*.tmp'']" by code_simp
  have q: "ToLower ''SRC/build/Out.tmp'' = ''src/build/out.tmp''" by code_simp
  have asc: "isASCII ''SRC/build/Out.tmp'' \<and> (\<forall>raw \<in> set [''Build/'', ''*.TMP'']. isASCII raw)"
    by (simp add: isASCII_def)
  show ?thesis
    using ignoreCase_lowercases_both_sides
      [where pats = "[''Build/'', ''*.TMP'']" and path = "''SRC/build/Out.tmp''" and isDir = False]
      asc
    unfolding p q by blast
qed

text \<open>
  C3. \<open>ShouldExclude\<close> matches with \<open>exclude_matchPath\<close>, which calls \<open>filepath.Match\<close> only:
  there \<open>**\<close> is two stars that stay inside one path element and braces are literal bytes.
  The two example paths are therefore not excluded.
\<close>

theorem exclude_doublestar_and_braces_not_expanded:
  "\<not> ShouldExclude \<lparr>gitignoreMatcher = None, globPatterns = [''**/node_modules/**''], ignoreCase = False\<rparr>
        ''project/lib/node_modules/pkg/index.js'' False
   \<and> \<not> ShouldExclude \<lparr>gitignoreMatcher = None, globPatterns = [''**/*.{tmp,log}''], ignoreCase = False\<rparr>
        ''project/cache/temp.tmp'' False"
  by code_simp

section \<open>The file system and filepath.Walk\<close>

text \<open>
  What the operating system shows at a path: a file, a directory with its entries (in the
  order \<open>readDirNames\<close> returns them, sorted by name), a directory whose entries cannot be
  read, or an entry that cannot be examined (\<open>Lstat\<close> fails on it). Symbolic links are not
  modelled.
\<close>

datatype node = File | Dir "(string \<times> node) list" | Unreadable | Broken

fun isDirNode :: "node \<Rightarrow> bool" where
  "isDirNode (Dir es) = True"
| "isDirNode Unreadable = True"
| "isDirNode File = False"
| "isDirNode Broken = False"

text \<open>
  The error value a \<open>WalkFunc\<close> returns: \<open>None\<close> is \<open>nil\<close>, \<open>SkipDir\<close> is \<open>filepath.SkipDir\<close>,
  \<open>WalkFailure\<close> stands for every other error.
\<close>

datatype walk_error = SkipDir | WalkFailure

text \<open>
  \<open>walk\<close> is the unexported recursive function of \<open>filepath.Walk\<close>. The callback receives the
  path, whether the entry is a directory, and whether it is called with an error.
\<close>

fun walk :: "(string \<Rightarrow> bool \<Rightarrow> bool \<Rightarrow> 's \<Rightarrow> walk_error option \<times> 's)
              \<Rightarrow> string \<Rightarrow> node \<Rightarrow> 's \<Rightarrow> walk_error option \<times> 's"
  and walkNames :: "(string \<Rightarrow> bool \<Rightarrow> bool \<Rightarrow> 's \<Rightarrow> walk_error option \<times> 's)
              \<Rightarrow> string \<Rightarrow> (string \<times> node) list \<Rightarrow> 's \<Rightarrow> walk_error option \<times> 's"
where
  "walk fn path File st = fn path False False st"
| "walk fn path Broken st = fn path False True st"
| "walk fn path Unreadable st = fn path True True st"
| "walk fn path (Dir es) st =
     (case fn path True False st of
        (Some e, st') \<Rightarrow> (Some e, st')
      | (None, st') \<Rightarrow> walkNames fn path es st')"
| "walkNames fn path [] st = (None, st)"
| "walkNames fn path ((name, nd) # rest) st =
     (if nd = Broken then
        (case fn (Join path name) False True st of
           (Some e, st') \<Rightarrow> if e \<noteq> SkipDir then (Some e, st') else walkNames fn path rest st'
         | (None, st') \<Rightarrow> walkNames fn path rest st')
      else
        (case walk fn (Join path name) nd st of
           (Some e, st') \<Rightarrow>
             if \<not> isDirNode nd \<or> e \<noteq> SkipDir then (Some e, st') else walkNames fn path rest st'
         | (None, st') \<Rightarrow> walkNames fn path rest st'))"

definition Walk :: "(string \<Rightarrow> bool \<Rightarrow> bool \<Rightarrow> 's \<Rightarrow> walk_error option \<times> 's)
              \<Rightarrow> string \<Rightarrow> node option \<Rightarrow> 's \<Rightarrow> walk_error option \<times> 's" where
  "Walk fn root info st =
     (case (case info of None \<Rightarrow> fn root False True st | Some nd \<Rightarrow> walk fn root nd st) of
        (err, st') \<Rightarrow> (if err = Some SkipDir then None else err, st'))"

section \<open>Package collector\<close>

text \<open>
  The environment of one run: the working directory (an absolute path), what \<open>os.Stat\<close> and
  \<open>os.Lstat\<close> find at a path, and \<open>doublestar.Match\<close> of the doublestar library, which is not
  part of this repository (\<open>None\<close> is its error for a malformed pattern).
\<close>

record os_env =
  getwd :: string
  stat :: "string \<Rightarrow> node option"
  doublestarMatch :: "string \<Rightarrow> string \<Rightarrow> bool option"

definition osStat :: "os_env \<Rightarrow> string \<Rightarrow> node option" where
  \<comment> \<open>\<open>os.Stat(path)\<close>; \<open>None\<close> is a non-nil error\<close>
  "osStat env path = (case stat env path of Some Broken \<Rightarrow> None | r \<Rightarrow> r)"

definition Abs :: "os_env \<Rightarrow> string \<Rightarrow> string" where
  \<comment> \<open>\<open>filepath.Abs\<close>, with a working directory that can be read\<close>
  "Abs env path = (if IsAbs path then Clean path else Join (getwd env) path)"

definition isGlobPattern :: "string \<Rightarrow> bool" where
  "isGlobPattern path = ContainsAny path ''*?[''"

definition isDoublestarPattern :: "string \<Rightarrow> bool" where
  "isDoublestarPattern pattern = Contains pattern ''**''"

definition hasBraceExpansion :: "string \<Rightarrow> bool" where
  "hasBraceExpansion pattern = (Contains pattern ''{'' \<and> Contains pattern ''}'')"

definition containsAnySep :: "string \<Rightarrow> bool" where
  "containsAnySep s = (Contains s ''/'' \<or> Contains s osSep)"

definition collector_matchPath :: "os_env \<Rightarrow> string \<Rightarrow> string \<Rightarrow> bool" where
  "collector_matchPath env pattern target =
     (if isDoublestarPattern pattern \<or> hasBraceExpansion pattern then
        (case doublestarMatch env pattern target of None \<Rightarrow> False | Some matched \<Rightarrow> matched)
      else
        (case Match pattern target of None \<Rightarrow> False | Some ok \<Rightarrow> ok))"

text \<open>The two variables the loop of \<open>CollectFiles\<close> updates.\<close>

record collect_state =
  seen :: "string set"
  result :: "string list"

definition addFile :: "string \<Rightarrow> collect_state \<Rightarrow> collect_state" where
  \<comment> \<open>\<open>if !seen[absPath] { result = append(result, absPath); seen[absPath] = true }\<close>\<close>
  "addFile absPath st =
     (if absPath \<notin> seen st
      then st\<lparr>result := result st @ [absPath], seen := insert absPath (seen st)\<rparr>
      else st)"

text \<open>The callback of the walk over a directory token.\<close>

definition walkDirFn :: "os_env \<Rightarrow> ExcludeMatcher \<Rightarrow> string \<Rightarrow> bool \<Rightarrow> bool \<Rightarrow> collect_state
                          \<Rightarrow> walk_error option \<times> collect_state" where
  "walkDirFn env m p isDir err st =
     (if err then (None, st)
      else
        (let absPath = Abs env p in
         if ShouldExclude m absPath isDir then
           (if isDir then (Some SkipDir, st) else (None, st))
         else if \<not> isDir then (None, addFile absPath st)
         else (None, st)))"

text \<open>The callback of the walk from the working directory for a token that is a pattern.\<close>

definition walkGlobFn :: "os_env \<Rightarrow> ExcludeMatcher \<Rightarrow> bool \<Rightarrow> string \<Rightarrow> string \<Rightarrow> bool \<Rightarrow> bool
                           \<Rightarrow> collect_state \<Rightarrow> walk_error option \<times> collect_state" where
  "walkGlobFn env m ic pattern p isDir err st =
     (if err then (None, st)
      else
        (let absPath = Abs env p in
         if ShouldExclude m absPath isDir then
           (if isDir then (Some SkipDir, st) else (None, st))
         else if isDir then (None, st)
         else
           (let rel = (case Rel_dot p of Some r \<Rightarrow> r | None \<Rightarrow> []);
                patNorm = ReplaceAll_sep pattern;
                target = rel;
                matched =
                  (if containsAnySep patNorm \<or> isDoublestarPattern patNorm then
                     (if ic then collector_matchPath env (ToLower patNorm) (ToLower target)
                      else collector_matchPath env patNorm target)
                   else
                     (let name = Base rel in
                      if ic then collector_matchPath env (ToLower patNorm) (ToLower name)
                      else collector_matchPath env patNorm name))
            in if matched then (None, addFile absPath st) else (None, st))))"

definition warning :: "string \<Rightarrow> string" where
  "warning path = ''Warning: Skipping non-existent path: '' @ path @ [CHR 0x0A]"

text \<open>
  The loop of \<open>CollectFiles\<close> over the tokens. The result is the error the function returns
  (\<open>Inl\<close>), or the final state with the lines written to the error stream, in order.
\<close>

fun collectLoop :: "os_env \<Rightarrow> ExcludeMatcher \<Rightarrow> bool \<Rightarrow> string list \<Rightarrow> collect_state
                     \<Rightarrow> walk_error + (collect_state \<times> string list)" where
  "collectLoop env m ic [] st = Inr (st, [])"
| "collectLoop env m ic (path # paths) st =
     (case osStat env path of
        Some info \<Rightarrow>
          (if isDirNode info then
             (case Walk (walkDirFn env m) path (stat env path) st of
                (Some e, st') \<Rightarrow> Inl e
              | (None, st') \<Rightarrow> collectLoop env m ic paths st')
           else
             (let absPath = Abs env path in
              if \<not> ShouldExclude m absPath False \<and> absPath \<notin> seen st
              then collectLoop env m ic paths
                     (st\<lparr>result := result st @ [absPath], seen := insert absPath (seen st)\<rparr>)
              else collectLoop env m ic paths st))
      | None \<Rightarrow>
          (if isGlobPattern path then
             (case Walk (walkGlobFn env m ic path) ''.'' (stat env ''.'') st of
                (Some e, st') \<Rightarrow> Inl e
              | (None, st') \<Rightarrow> collectLoop env m ic paths st')
           else
             (case collectLoop env m ic paths st of
                Inl e \<Rightarrow> Inl e
              | Inr (st', out) \<Rightarrow> Inr (st', warning path # out))))"

definition CollectFiles :: "os_env \<Rightarrow> string list \<Rightarrow> ExcludeMatcher \<Rightarrow> bool
                             \<Rightarrow> walk_error + (string list \<times> string list)" where
  "CollectFiles env paths m ic =
     (case collectLoop env m ic paths \<lparr>seen = {}, result = []\<rparr> of
        Inl e \<Rightarrow> Inl e
      | Inr (st, out) \<Rightarrow> Inr (result st, out))"

section \<open>Properties of the walk\<close>

text \<open>A callback is tame when its only error is \<open>SkipDir\<close>, returned for directories only.\<close>

definition tame :: "(string \<Rightarrow> bool \<Rightarrow> bool \<Rightarrow> 's \<Rightarrow> walk_error option \<times> 's) \<Rightarrow> bool" where
  "tame fn = (\<forall>p d e st. fst (fn p d e st) = None \<or> (fst (fn p d e st) = Some SkipDir \<and> d))"

lemma tame_file: "tame fn \<Longrightarrow> fst (fn p False e st) = None"
  unfolding tame_def by blast

lemma tame_dir: "tame fn \<Longrightarrow> fst (fn p d e st) = None \<or> fst (fn p d e st) = Some SkipDir"
  unfolding tame_def by blast

definition quiet :: "(string \<Rightarrow> bool \<Rightarrow> bool \<Rightarrow> 's \<Rightarrow> walk_error option \<times> 's) \<Rightarrow> node \<Rightarrow> bool" where
  "quiet fn nd = (\<forall>path st. fst (walk fn path nd st) = None
                    \<or> (fst (walk fn path nd st) = Some SkipDir \<and> isDirNode nd))"

lemma walkNames_quiet_step:
  assumes "tame fn" and "quiet fn nd"
  shows "walkNames fn path ((name, nd) # rest) st
         = walkNames fn path rest (snd (walk fn (Join path name) nd st))"
proof (cases "nd = Broken")
  case True
  have "fst (fn (Join path name) False True st) = None" using assms(1) by (rule tame_file)
  then show ?thesis using True by (cases "fn (Join path name) False True st") simp
next
  case False
  have "fst (walk fn (Join path name) nd st) = None
        \<or> (fst (walk fn (Join path name) nd st) = Some SkipDir \<and> isDirNode nd)"
    using assms(2) unfolding quiet_def by blast
  then show ?thesis using False by (cases "walk fn (Join path name) nd st") auto
qed

lemma walkNames_quiet:
  assumes "tame fn" and "\<forall>(name, nd) \<in> set es. quiet fn nd"
  shows "fst (walkNames fn path es st) = None"
  using assms(2)
proof (induction es arbitrary: st)
  case Nil
  then show ?case by simp
next
  case (Cons a es)
  obtain name nd where a: "a = (name, nd)" by (cases a)
  have q: "quiet fn nd" using Cons.prems a by simp
  show ?case
    unfolding a walkNames_quiet_step [OF assms(1) q]
    using Cons.IH Cons.prems by simp
qed

lemma walk_Dir_tame:
  assumes "tame fn"
  shows "walk fn path (Dir es) st =
     (if fst (fn path True False st) = None
      then walkNames fn path es (snd (fn path True False st))
      else (Some SkipDir, snd (fn path True False st)))"
  using tame_dir [OF assms, of path True False st]
  by (cases "fn path True False st") auto

lemma all_quiet: "tame fn \<Longrightarrow> quiet fn nd"
proof (induction nd)
  case File
  then show ?case by (simp add: quiet_def tame_file)
next
  case (Dir es)
  have "\<forall>(name, nd) \<in> set es. quiet fn nd"
    using Dir by fastforce
  then have "fst (walkNames fn path es st) = None" for path st
    using walkNames_quiet [OF Dir.prems] by blast
  then show ?case
    unfolding quiet_def walk_Dir_tame [OF Dir.prems] by simp
next
  case Unreadable
  then show ?case using tame_dir [of fn] by (simp add: quiet_def)
next
  case Broken
  then show ?case by (simp add: quiet_def tame_file)
qed

lemma walkNames_tame_Cons:
  "tame fn \<Longrightarrow> walkNames fn path ((name, nd) # rest) st
         = walkNames fn path rest (snd (walk fn (Join path name) nd st))"
  by (rule walkNames_quiet_step) (simp_all add: all_quiet)

lemma walkNames_tame_None: "tame fn \<Longrightarrow> fst (walkNames fn path es st) = None"
  by (rule walkNames_quiet) (simp_all add: all_quiet)

lemma walk_tame_result:
  "tame fn \<Longrightarrow> fst (walk fn path nd st) = None \<or> fst (walk fn path nd st) = Some SkipDir"
  using all_quiet [of fn nd] unfolding quiet_def by blast

lemma Walk_tame: "tame fn \<Longrightarrow> fst (Walk fn root info st) = None"
proof -
  assume t: "tame fn"
  show ?thesis
  proof (cases info)
    case None
    then show ?thesis using tame_file [OF t, of root True st]
      by (cases "fn root False True st") (simp add: Walk_def)
  next
    case (Some nd)
    then show ?thesis using walk_tame_result [OF t, of root nd st]
      by (cases "walk fn root nd st") (auto simp: Walk_def)
  qed
qed

text \<open>An invariant of the state that every call of the callback keeps is kept by the walk.\<close>

lemma walk_invariant:
  assumes t: "tame fn" and pres: "\<And>p d e s. P s \<Longrightarrow> P (snd (fn p d e s))"
  shows "P st \<Longrightarrow> P (snd (walk fn path nd st))"
proof (induction nd arbitrary: path st)
  case File
  then show ?case by (simp add: pres)
next
  case (Dir es)
  have names: "P s \<Longrightarrow> P (snd (walkNames fn path es' s))" if "set es' \<subseteq> set es" for es' s
    using that
  proof (induction es' arbitrary: s)
    case Nil
    then show ?case by simp
  next
    case (Cons a es')
    obtain name nd where a: "a = (name, nd)" by (cases a)
    have "P (snd (walk fn (Join path name) nd s))"
      using Dir.IH [of a nd "s" "Join path name"] Cons.prems a by auto
    then show ?case
      unfolding a walkNames_tame_Cons [OF t] using Cons.IH Cons.prems by simp
  qed
  show ?case
    unfolding walk_Dir_tame [OF t] using names [of es] pres Dir.prems by simp
next
  case Unreadable
  then show ?case by (simp add: pres)
next
  case Broken
  then show ?case by (simp add: pres)
qed

lemma walkNames_invariant:
  assumes t: "tame fn" and pres: "\<And>p d e s. P s \<Longrightarrow> P (snd (fn p d e s))"
  shows "P st \<Longrightarrow> P (snd (walkNames fn path es st))"
proof (induction es arbitrary: st)
  case Nil
  then show ?case by simp
next
  case (Cons a es)
  obtain name nd where a: "a = (name, nd)" by (cases a)
  show ?case
    unfolding a walkNames_tame_Cons [OF t]
    using Cons walk_invariant [where P = P and fn = fn, OF t pres] by simp
qed

lemma Walk_invariant:
  assumes t: "tame fn" and pres: "\<And>p d e s. P s \<Longrightarrow> P (snd (fn p d e s))"
  shows "P st \<Longrightarrow> P (snd (Walk fn root info st))"
proof (cases info)
  case None
  assume "P st"
  then show ?thesis using None pres [of st root False True]
    by (cases "fn root False True st") (simp add: Walk_def)
next
  case (Some nd)
  assume "P st"
  then show ?thesis using Some walk_invariant [where P = P and fn = fn, OF t pres, of st root nd]
    by (cases "walk fn root nd st") (simp add: Walk_def)
qed

section \<open>Properties of the collector\<close>

lemma walkDirFn_tame: "tame (walkDirFn env m)"
  by (simp add: tame_def walkDirFn_def Let_def)

lemma walkGlobFn_tame: "tame (walkGlobFn env m ic pattern)"
  by (simp add: tame_def walkGlobFn_def Let_def)

text \<open>
  The invariant of the loop: the result has no duplicate, \<open>seen\<close> is the set of its
  elements, and every element is a path that the matcher does not exclude as a file.
\<close>

definition collect_inv :: "ExcludeMatcher \<Rightarrow> collect_state \<Rightarrow> bool" where
  "collect_inv m st =
     (distinct (result st) \<and> seen st = set (result st)
      \<and> list_all (\<lambda>p. \<not> ShouldExclude m p False) (result st))"

lemma collect_inv_addFile:
  "collect_inv m st \<Longrightarrow> \<not> ShouldExclude m p False \<Longrightarrow> collect_inv m (addFile p st)"
  by (auto simp: collect_inv_def addFile_def)

lemma walkDirFn_inv: "collect_inv m st \<Longrightarrow> collect_inv m (snd (walkDirFn env m p d e st))"
  by (auto simp: walkDirFn_def Let_def collect_inv_addFile)

lemma walkGlobFn_inv:
  "collect_inv m st \<Longrightarrow> collect_inv m (snd (walkGlobFn env m ic pattern p d e st))"
  by (auto simp: walkGlobFn_def Let_def collect_inv_addFile)

lemma collectLoop_total_inv:
  "collect_inv m st \<Longrightarrow>
     \<exists>st' out. collectLoop env m ic paths st = Inr (st', out) \<and> collect_inv m st'"
proof (induction paths arbitrary: st)
  case Nil
  then show ?case by simp
next
  case (Cons path paths)
  show ?case
  proof (cases "osStat env path")
    case None
    show ?thesis
    proof (cases "isGlobPattern path")
      case True
      let ?w = "Walk (walkGlobFn env m ic path) ''.'' (stat env ''.'') st"
      have e: "fst ?w = None" by (rule Walk_tame [OF walkGlobFn_tame])
      have i: "collect_inv m (snd ?w)"
        by (rule Walk_invariant [where P = "collect_inv m", OF walkGlobFn_tame walkGlobFn_inv Cons.prems])
      obtain st' where w: "?w = (None, st')" using e by (cases ?w) simp
      with i have "collect_inv m st'" by simp
      from Cons.IH [OF this] show ?thesis using None True w by simp
    next
      case False
      from Cons.IH [OF Cons.prems] show ?thesis using None False by auto
    qed
  next
    case (Some info)
    show ?thesis
    proof (cases "isDirNode info")
      case True
      let ?w = "Walk (walkDirFn env m) path (stat env path) st"
      have e: "fst ?w = None" by (rule Walk_tame [OF walkDirFn_tame])
      have i: "collect_inv m (snd ?w)"
        by (rule Walk_invariant [where P = "collect_inv m", OF walkDirFn_tame walkDirFn_inv Cons.prems])
      obtain st' where w: "?w = (None, st')" using e by (cases ?w) simp
      with i have "collect_inv m st'" by simp
      from Cons.IH [OF this] show ?thesis using Some True w by simp
    next
      case False
      let ?a = "Abs env path"
      show ?thesis
      proof (cases "\<not> ShouldExclude m ?a False \<and> ?a \<notin> seen st")
        case add: True
        then have "collect_inv m (st\<lparr>result := result st @ [?a], seen := insert ?a (seen st)\<rparr>)"
          using Cons.prems by (auto simp: collect_inv_def)
        from Cons.IH [OF this] show ?thesis using Some False add by (simp add: Let_def)
      next
        case noadd: False
        from Cons.IH [OF Cons.prems] show ?thesis using Some False noadd by (auto simp: Let_def)
      qed
    qed
  qed
qed

definition collected :: "walk_error + (string list \<times> string list) \<Rightarrow> string list" where
  "collected r = (case r of Inl e \<Rightarrow> [] | Inr (files, out) \<Rightarrow> files)"

lemma CollectFiles_total_inv:
  "\<exists>files out. CollectFiles env paths m ic = Inr (files, out) \<and> distinct files
     \<and> list_all (\<lambda>p. \<not> ShouldExclude m p False) files"
proof -
  have "collect_inv m \<lparr>seen = {}, result = []\<rparr>" by (simp add: collect_inv_def)
  from collectLoop_total_inv [OF this, of env ic paths]
  show ?thesis by (auto simp: CollectFiles_def collect_inv_def)
qed

lemma walkDirFn_keeps: "a \<in> set (result st) \<Longrightarrow> a \<in> set (result (snd (walkDirFn env m p d e st)))"
  by (auto simp: walkDirFn_def Let_def addFile_def)

lemma walkGlobFn_keeps:
  "a \<in> set (result st) \<Longrightarrow> a \<in> set (result (snd (walkGlobFn env m ic pattern p d e st)))"
  by (auto simp: walkGlobFn_def Let_def addFile_def)

lemma collectLoop_keeps:
  "collectLoop env m ic paths st = Inr (st', out) \<Longrightarrow> a \<in> set (result st) \<Longrightarrow> a \<in> set (result st')"
proof (induction paths arbitrary: st out)
  case Nil
  then show ?case by simp
next
  case (Cons path paths)
  show ?case
  proof (cases "osStat env path")
    case None
    show ?thesis
    proof (cases "isGlobPattern path")
      case True
      let ?w = "Walk (walkGlobFn env m ic path) ''.'' (stat env ''.'') st"
      have k: "a \<in> set (result (snd ?w))"
        by (rule Walk_invariant [where P = "\<lambda>s. a \<in> set (result s)", OF walkGlobFn_tame walkGlobFn_keeps Cons.prems(2)])
      show ?thesis
        using Cons.prems(1) None True k Cons.IH [of "snd ?w" out]
        by (cases ?w) (auto split: option.splits)
    next
      case False
      then show ?thesis
        using Cons.prems None Cons.IH [of st]
        by (auto split: sum.splits)
    qed
  next
    case (Some info)
    show ?thesis
    proof (cases "isDirNode info")
      case True
      let ?w = "Walk (walkDirFn env m) path (stat env path) st"
      have k: "a \<in> set (result (snd ?w))"
        by (rule Walk_invariant [where P = "\<lambda>s. a \<in> set (result s)", OF walkDirFn_tame walkDirFn_keeps Cons.prems(2)])
      show ?thesis
        using Cons.prems(1) Some True k Cons.IH [of "snd ?w" out]
        by (cases ?w) (auto split: option.splits)
    next
      case False
      let ?a = "Abs env path"
      show ?thesis
      proof (cases "\<not> ShouldExclude m ?a False \<and> ?a \<notin> seen st")
        case add: True
        show ?thesis
          using Cons.prems Some False add
            Cons.IH [of "st\<lparr>result := result st @ [?a], seen := insert ?a (seen st)\<rparr>" out]
          by (simp add: Let_def)
      next
        case noadd: False
        show ?thesis
          using Cons.prems Some False noadd Cons.IH [of st out]
          by (auto simp: Let_def)
      qed
    qed
  qed
qed

lemma collectLoop_literal_present:
  assumes "collectLoop env m ic paths st = Inr (st', out)" and "collect_inv m st"
    and "t \<in> set paths" and "osStat env t = Some info" and "\<not> isDirNode info"
    and "\<not> ShouldExclude m (Abs env t) False"
  shows "Abs env t \<in> set (result st')"
  using assms(1,2,3)
proof (induction paths arbitrary: st out)
  case Nil
  then show ?case by simp
next
  case (Cons path paths)
  show ?case
  proof (cases "path = t")
    case True
    let ?a = "Abs env t"
    have "?a \<in> set (result st) \<or> (\<not> ShouldExclude m ?a False \<and> ?a \<notin> seen st)"
      using Cons.prems(2) assms(6) by (auto simp: collect_inv_def)
    then show ?thesis
    proof
      assume "?a \<in> set (result st)"
      then show ?thesis using collectLoop_keeps [OF Cons.prems(1)] by simp
    next
      assume add: "\<not> ShouldExclude m ?a False \<and> ?a \<notin> seen st"
      have "collectLoop env m ic paths (st\<lparr>result := result st @ [?a], seen := insert ?a (seen st)\<rparr>)
            = Inr (st', out)"
        using Cons.prems(1) True assms(4,5) add by (simp add: Let_def)
      from collectLoop_keeps [OF this, of ?a] show ?thesis by simp
    qed
  next
    case False
    then have tin: "t \<in> set paths" using Cons.prems(3) by simp
    have step: "\<exists>s o2. collectLoop env m ic paths s = Inr (st', o2) \<and> collect_inv m s"
    proof (cases "osStat env path")
      case None
      show ?thesis
      proof (cases "isGlobPattern path")
        case True
        let ?w = "Walk (walkGlobFn env m ic path) ''.'' (stat env ''.'') st"
        have "collect_inv m (snd ?w)"
          by (rule Walk_invariant [where P = "collect_inv m", OF walkGlobFn_tame walkGlobFn_inv Cons.prems(2)])
        then show ?thesis using Cons.prems(1) None True
          by (cases ?w) (auto split: option.splits)
      next
        case False
        then show ?thesis using Cons.prems(1,2) None
          by (auto split: sum.splits)
      qed
    next
      case (Some info')
      show ?thesis
      proof (cases "isDirNode info'")
        case True
        let ?w = "Walk (walkDirFn env m) path (stat env path) st"
        have "collect_inv m (snd ?w)"
          by (rule Walk_invariant [where P = "collect_inv m", OF walkDirFn_tame walkDirFn_inv Cons.prems(2)])
        then show ?thesis using Cons.prems(1) Some True
          by (cases ?w) (auto split: option.splits)
      next
        case nd: False
        let ?a = "Abs env path"
        show ?thesis
        proof (cases "\<not> ShouldExclude m ?a False \<and> ?a \<notin> seen st")
          case add: True
          then have "collect_inv m (st\<lparr>result := result st @ [?a], seen := insert ?a (seen st)\<rparr>)"
            using Cons.prems(2) by (auto simp: collect_inv_def)
          then show ?thesis using Cons.prems(1) Some nd add by (auto simp: Let_def)
        next
          case noadd: False
          then have "collectLoop env m ic paths st = Inr (st', out)"
            using Cons.prems(1) Some nd by (auto simp: Let_def)
          then show ?thesis using Cons.prems(2) by blast
        qed
      qed
    qed
    then obtain s o2 where "collectLoop env m ic paths s = Inr (st', o2)" "collect_inv m s" by blast
    then show ?thesis using Cons.IH tin by blast
  qed
qed

lemma distinct_count_one: "distinct xs \<Longrightarrow> x \<in> set xs \<Longrightarrow> count_list xs x = 1"
  by (induction xs) auto

text \<open>
  C5. \<open>CollectFiles\<close> returns without error, and the list it returns contains no path for
  which \<open>ShouldExclude\<close> answers true and no path twice, whatever the tokens are. A token that
  names an existing file which is not excluded has exactly one entry, however many times
  the token is given and whether or not a directory token reaches the same file.
\<close>

theorem CollectFiles_excludes_and_deduplicates:
  "\<exists>files out. CollectFiles env paths m ic = Inr (files, out)
     \<and> (\<forall>p \<in> set files. \<not> ShouldExclude m p False)
     \<and> distinct files
     \<and> (\<forall>t \<in> set paths. \<forall>info.
           osStat env t = Some info \<and> \<not> isDirNode info \<and> \<not> ShouldExclude m (Abs env t) False
           \<longrightarrow> count_list files (Abs env t) = 1)"
proof -
  let ?st0 = "\<lparr>seen = {}, result = []\<rparr>"
  have i0: "collect_inv m ?st0" by (simp add: collect_inv_def)
  obtain st' out where run: "collectLoop env m ic paths ?st0 = Inr (st', out)"
    and inv: "collect_inv m st'"
    using collectLoop_total_inv [OF i0, of env ic paths] by blast
  have cf: "CollectFiles env paths m ic = Inr (result st', out)"
    using run by (simp add: CollectFiles_def)
  have d: "distinct (result st')" using inv by (simp add: collect_inv_def)
  have ex: "\<forall>p \<in> set (result st'). \<not> ShouldExclude m p False"
    using inv by (simp add: collect_inv_def list_all_iff)
  have one: "count_list (result st') (Abs env t) = 1"
    if "t \<in> set paths" "osStat env t = Some info" "\<not> isDirNode info"
       "\<not> ShouldExclude m (Abs env t) False" for t info
    using collectLoop_literal_present [OF run i0 that] d by (rule distinct_count_one [rotated])
  show ?thesis using cf d ex one by blast
qed

definition example_env :: os_env where
  "example_env =
     \<lparr>getwd = ''/w'',
      stat = (\<lambda>p. if p = ''src'' then Some (Dir [(''app.go'', File), (''app.log'', File)])
                  else if p = ''src/app.go'' then Some File
                  else if p = ''b.txt'' then Some File
                  else if p = ''a.txt'' then Some File
                  else None),
      doublestarMatch = (\<lambda>pattern target. None)\<rparr>"

theorem CollectFiles_excludes_and_deduplicates_witness:
  "CollectFiles example_env [''src/app.go'', ''src'', ''src/app.go'']
      \<lparr>gitignoreMatcher = None, globPatterns = [''*.log''], ignoreCase = False\<rparr> False
    = Inr ([''/w/src/app.go''], [])
   \<and> count_list (collected (CollectFiles example_env [''src/app.go'', ''src'', ''src/app.go'']
      \<lparr>gitignoreMatcher = None, globPatterns = [''*.log''], ignoreCase = False\<rparr> False))
        ''/w/src/app.go'' = 1"
proof -
  let ?m = "\<lparr>gitignoreMatcher = None, globPatterns = [''*.log''], ignoreCase = False\<rparr>"
  let ?ts = "[''src/app.go'', ''src'', ''src/app.go'']"
  have ev: "CollectFiles example_env ?ts ?m False = Inr ([''/w/src/app.go''], [])"
    by code_simp
  have a: "Abs example_env ''src/app.go'' = ''/w/src/app.go''" by code_simp
  have s: "osStat example_env ''src/app.go'' = Some File" by code_simp
  have x: "\<not> ShouldExclude ?m ''/w/src/app.go'' False" by code_simp
  show ?thesis
    using CollectFiles_excludes_and_deduplicates [of example_env ?ts ?m False] ev a s x
    by (auto simp: collected_def)
qed

lemma collectLoop_append:
  "collectLoop env m ic (xs @ ys) st =
     (case collectLoop env m ic xs st of
        Inl e \<Rightarrow> Inl e
      | Inr (st', o1) \<Rightarrow>
          (case collectLoop env m ic ys st' of
             Inl e \<Rightarrow> Inl e
           | Inr (st'', o2) \<Rightarrow> Inr (st'', o1 @ o2)))"
proof (induction xs arbitrary: st)
  case Nil
  then show ?case by (auto split: sum.splits)
next
  case (Cons path xs)
  show ?case
    by (simp add: Cons.IH Let_def split: option.splits sum.splits prod.splits)
qed

text \<open>
  C9. A token that does not exist on disk and has no glob metacharacter makes \<open>CollectFiles\<close>
  write one warning that names it, adds no path, and returns no error: the run over the
  tokens before and after it gives the same files as without the token, and the same
  warnings with the one warning added in between.
\<close>

theorem nonexistent_token_is_skipped_with_warning:
  assumes "osStat env t = None" and "\<not> isGlobPattern t"
  shows "CollectFiles env [t] m ic = Inr ([], [''Warning: Skipping non-existent path: '' @ t @ [CHR 0x0A]])
    \<and> (\<exists>files out1 out2.
          CollectFiles env (before @ t # after) m ic = Inr (files, out1 @ warning t # out2)
        \<and> CollectFiles env (before @ after) m ic = Inr (files, out1 @ out2))"
proof
  show "CollectFiles env [t] m ic = Inr ([], [''Warning: Skipping non-existent path: '' @ t @ [CHR 0x0A]])"
    using assms by (simp add: CollectFiles_def warning_def)
next
  let ?st0 = "\<lparr>seen = {}, result = []\<rparr>"
  have i0: "collect_inv m ?st0" by (simp add: collect_inv_def)
  obtain s1 o1 where r1: "collectLoop env m ic before ?st0 = Inr (s1, o1)" and i1: "collect_inv m s1"
    using collectLoop_total_inv [OF i0, of env ic before] by blast
  obtain s2 o2 where r2: "collectLoop env m ic after s1 = Inr (s2, o2)"
    using collectLoop_total_inv [OF i1, of env ic after] by blast
  have r3: "collectLoop env m ic (t # after) s1 = Inr (s2, warning t # o2)"
    using assms r2 by simp
  have "CollectFiles env (before @ t # after) m ic = Inr (result s2, o1 @ warning t # o2)"
    by (simp add: CollectFiles_def collectLoop_append [of env m ic before "t # after"] r1 r3
        del: collectLoop.simps)
  moreover have "CollectFiles env (before @ after) m ic = Inr (result s2, o1 @ o2)"
    by (simp add: CollectFiles_def collectLoop_append [of env m ic before after] r1 r2
        del: collectLoop.simps)
  ultimately show "\<exists>files out1 out2.
          CollectFiles env (before @ t # after) m ic = Inr (files, out1 @ warning t # out2)
        \<and> CollectFiles env (before @ after) m ic = Inr (files, out1 @ out2)"
    by blast
qed

theorem nonexistent_token_is_skipped_with_warning_witness:
  "CollectFiles example_env [''missing/literal/path'']
      \<lparr>gitignoreMatcher = None, globPatterns = [], ignoreCase = False\<rparr> False
    = Inr ([], [''Warning: Skipping non-existent path: missing/literal/path'' @ [CHR 0x0A]])"
proof -
  have s: "osStat example_env ''missing/literal/path'' = None" by code_simp
  have g: "\<not> isGlobPattern ''missing/literal/path''" by code_simp
  show ?thesis
    using nonexistent_token_is_skipped_with_warning [OF s g, of "\<lparr>gitignoreMatcher = None, globPatterns = [], ignoreCase = False\<rparr>" False]
    by simp
qed

definition temp_env :: os_env where
  "temp_env =
     \<lparr>getwd = ''/w'',
      stat = (\<lambda>p. if p = ''.'' then Some (Dir [(''Temp'', Dir [(''a'', Dir [(''b.txt'', File)])])])
                  else None),
      doublestarMatch = (\<lambda>pattern target. None)\<rparr>"

text \<open>
  C4. The candidate paths that \<open>CollectFiles\<close> hands to \<open>ShouldExclude\<close> are absolute, and
  \<open>filepath.Rel(".", path)\<close> fails on an absolute path, so the pattern \<open>[Tt]emp*/\<close> is
  compared with the absolute path and matches nothing: the walk from the working directory
  \<open>/w\<close> over \<open>Temp/a/b.txt\<close> returns that file.
\<close>

theorem complex_directory_pattern_does_not_prune:
  "CollectFiles temp_env [''.'']
      \<lparr>gitignoreMatcher = None, globPatterns = [''[Tt]emp*/''], ignoreCase = False\<rparr> False
     = Inr ([''/w/Temp/a/b.txt''], [])
   \<and> \<not> ShouldExclude \<lparr>gitignoreMatcher = None, globPatterns = [''[Tt]emp*/''], ignoreCase = False\<rparr>
         ''/w/Temp'' True
   \<and> \<not> ShouldExclude \<lparr>gitignoreMatcher = None, globPatterns = [''[Tt]emp*/''], ignoreCase = False\<rparr>
         ''Temp/a/b.txt'' False"
  by code_simp

section \<open>Adding exclude patterns\<close>

lemma ShouldExclude_mono:
  assumes "gitignoreMatcher m2 = gitignoreMatcher m1" and "ignoreCase m2 = ignoreCase m1"
    and "set (globPatterns m1) \<subseteq> set (globPatterns m2)"
    and "ShouldExclude m1 p d"
  shows "ShouldExclude m2 p d"
proof -
  let ?ic = "ignoreCase m1"
  let ?r = "lower ?ic (relPathOf p)"
  let ?b = "lower ?ic (Base (relPathOf p))"
  have "globLoop ?ic ?r ?b d (globPatterns m1) \<Longrightarrow> globLoop ?ic ?r ?b d (globPatterns m2)"
    using assms(3) globLoop_exists [of ?ic ?r ?b d "globPatterns m1"]
      globLoop_exists [of ?ic ?r ?b d "globPatterns m2"] by blast
  then show ?thesis
    using assms(1,2,4) by (auto simp: ShouldExclude_def Let_def)
qed

text \<open>
  Two runs side by side, the second with the larger matcher: what the second has collected,
  the first has collected too.
\<close>

definition behind :: "collect_state \<Rightarrow> collect_state \<Rightarrow> bool" where
  "behind st2 st1 =
     (set (result st2) \<subseteq> set (result st1)
      \<and> seen st2 = set (result st2) \<and> seen st1 = set (result st1))"

lemma behind_addFile_both: "behind st2 st1 \<Longrightarrow> behind (addFile a st2) (addFile a st1)"
  by (auto simp: behind_def addFile_def)

lemma behind_addFile_first: "behind st2 st1 \<Longrightarrow> behind st2 (addFile a st1)"
  by (auto simp: behind_def addFile_def)

lemma walk_lockstep:
  assumes t1: "tame f1" and t2: "tame f2"
    and grow: "\<And>p d e s2 s1. behind s2 s1 \<Longrightarrow> behind s2 (snd (f1 p d e s1))"
    and step: "\<And>p d e s2 s1. behind s2 s1 \<Longrightarrow> behind (snd (f2 p d e s2)) (snd (f1 p d e s1))"
    and skip: "\<And>p d e s2 s1. fst (f2 p d e s2) = None \<Longrightarrow> fst (f1 p d e s1) = None"
  shows "behind st2 st1 \<Longrightarrow> behind (snd (walk f2 path nd st2)) (snd (walk f1 path nd st1))"
proof (induction nd arbitrary: path st2 st1)
  case File
  then show ?case by (simp add: step)
next
  case (Dir es)
  have names: "behind s2 s1 \<Longrightarrow>
      behind (snd (walkNames f2 path es' s2)) (snd (walkNames f1 path es' s1))"
    if "set es' \<subseteq> set es" for es' s2 s1
    using that
  proof (induction es' arbitrary: s2 s1)
    case Nil
    then show ?case by simp
  next
    case (Cons a es')
    obtain name nd where a: "a = (name, nd)" by (cases a)
    have "behind (snd (walk f2 (Join path name) nd s2)) (snd (walk f1 (Join path name) nd s1))"
      using Dir.IH [of a nd s2 s1 "Join path name"] Cons.prems a by auto
    then show ?case
      unfolding a walkNames_tame_Cons [OF t1] walkNames_tame_Cons [OF t2]
      using Cons.IH Cons.prems by simp
  qed
  let ?s2 = "snd (f2 path True False st2)"
  let ?s1 = "snd (f1 path True False st1)"
  have b: "behind ?s2 ?s1" using step Dir.prems by simp
  show ?case
  proof (cases "fst (f2 path True False st2) = None")
    case True
    then have "fst (f1 path True False st1) = None" by (rule skip)
    then show ?thesis
      unfolding walk_Dir_tame [OF t1] walk_Dir_tame [OF t2] using True names [of es] b by simp
  next
    case False
    have "behind ?s2 (snd (walkNames f1 path es ?s1))"
      by (rule walkNames_invariant [where P = "behind ?s2" and fn = f1, OF t1 grow b])
    then show ?thesis
      unfolding walk_Dir_tame [OF t1] walk_Dir_tame [OF t2] using False b by auto
  qed
next
  case Unreadable
  then show ?case by (simp add: step)
next
  case Broken
  then show ?case by (simp add: step)
qed

lemma Walk_snd: "snd (Walk fn root info st)
    = snd (case info of None \<Rightarrow> fn root False True st | Some nd \<Rightarrow> walk fn root nd st)"
  by (simp add: Walk_def split: prod.splits)

lemma Walk_lockstep:
  assumes t1: "tame f1" and t2: "tame f2"
    and grow: "\<And>p d e s2 s1. behind s2 s1 \<Longrightarrow> behind s2 (snd (f1 p d e s1))"
    and step: "\<And>p d e s2 s1. behind s2 s1 \<Longrightarrow> behind (snd (f2 p d e s2)) (snd (f1 p d e s1))"
    and skip: "\<And>p d e s2 s1. fst (f2 p d e s2) = None \<Longrightarrow> fst (f1 p d e s1) = None"
    and b: "behind st2 st1"
  shows "behind (snd (Walk f2 root info st2)) (snd (Walk f1 root info st1))"
proof (cases info)
  case None
  then show ?thesis using step [OF b] by (simp add: Walk_snd)
next
  case (Some nd)
  then show ?thesis
    using walk_lockstep [where ?f1.0 = f1 and ?f2.0 = f2, OF t1 t2 grow step skip b]
    by (simp add: Walk_snd)
qed

definition larger :: "ExcludeMatcher \<Rightarrow> ExcludeMatcher \<Rightarrow> bool" where
  "larger m2 m1 = (\<forall>p d. ShouldExclude m1 p d \<longrightarrow> ShouldExclude m2 p d)"

lemma walkDirFn_grow: "behind s2 s1 \<Longrightarrow> behind s2 (snd (walkDirFn env m1 p d e s1))"
  by (auto simp: walkDirFn_def Let_def behind_addFile_first)

lemma walkGlobFn_grow: "behind s2 s1 \<Longrightarrow> behind s2 (snd (walkGlobFn env m1 ic pattern p d e s1))"
  by (auto simp: walkGlobFn_def Let_def behind_addFile_first)

lemma walkDirFn_step:
  "larger m2 m1 \<Longrightarrow> behind s2 s1 \<Longrightarrow>
     behind (snd (walkDirFn env m2 p d e s2)) (snd (walkDirFn env m1 p d e s1))"
  by (auto simp: walkDirFn_def Let_def larger_def behind_addFile_first behind_addFile_both)

lemma walkGlobFn_step:
  "larger m2 m1 \<Longrightarrow> behind s2 s1 \<Longrightarrow>
     behind (snd (walkGlobFn env m2 ic pattern p d e s2)) (snd (walkGlobFn env m1 ic pattern p d e s1))"
  by (auto simp: walkGlobFn_def Let_def larger_def behind_addFile_first behind_addFile_both)

lemma walkDirFn_skip:
  "larger m2 m1 \<Longrightarrow> fst (walkDirFn env m2 p d e s2) = None \<Longrightarrow> fst (walkDirFn env m1 p d e s1) = None"
  by (auto simp: walkDirFn_def Let_def larger_def split: if_splits)

lemma walkGlobFn_skip:
  "larger m2 m1 \<Longrightarrow> fst (walkGlobFn env m2 ic pattern p d e s2) = None
     \<Longrightarrow> fst (walkGlobFn env m1 ic pattern p d e s1) = None"
  by (auto simp: walkGlobFn_def Let_def larger_def split: if_splits)

lemma collectLoop_lockstep:
  assumes l: "larger m2 m1"
  shows "behind st2 st1 \<Longrightarrow> collectLoop env m2 ic paths st2 = Inr (s2, o2)
     \<Longrightarrow> collectLoop env m1 ic paths st1 = Inr (s1, o1) \<Longrightarrow> behind s2 s1"
proof (induction paths arbitrary: st2 st1 o2 o1)
  case Nil
  then show ?case by simp
next
  case (Cons path paths)
  show ?case
  proof (cases "osStat env path")
    case None
    show ?thesis
    proof (cases "isGlobPattern path")
      case True
      let ?w2 = "Walk (walkGlobFn env m2 ic path) ''.'' (stat env ''.'') st2"
      let ?w1 = "Walk (walkGlobFn env m1 ic path) ''.'' (stat env ''.'') st1"
      have b: "behind (snd ?w2) (snd ?w1)"
        by (rule Walk_lockstep [OF walkGlobFn_tame walkGlobFn_tame walkGlobFn_grow
              walkGlobFn_step [OF l] walkGlobFn_skip [OF l] Cons.prems(1)])
      have "collectLoop env m2 ic paths (snd ?w2) = Inr (s2, o2)"
        using Cons.prems(2) None True by (cases ?w2) (auto split: option.splits)
      moreover have "collectLoop env m1 ic paths (snd ?w1) = Inr (s1, o1)"
        using Cons.prems(3) None True by (cases ?w1) (auto split: option.splits)
      ultimately show ?thesis using Cons.IH [OF b] by blast
    next
      case False
      obtain o2' o1' where "collectLoop env m2 ic paths st2 = Inr (s2, o2')"
        "collectLoop env m1 ic paths st1 = Inr (s1, o1')"
        using Cons.prems(2,3) None False by (auto split: sum.splits)
      then show ?thesis using Cons.IH [OF Cons.prems(1)] by blast
    qed
  next
    case (Some info)
    show ?thesis
    proof (cases "isDirNode info")
      case True
      let ?w2 = "Walk (walkDirFn env m2) path (stat env path) st2"
      let ?w1 = "Walk (walkDirFn env m1) path (stat env path) st1"
      have b: "behind (snd ?w2) (snd ?w1)"
        by (rule Walk_lockstep [OF walkDirFn_tame walkDirFn_tame walkDirFn_grow
              walkDirFn_step [OF l] walkDirFn_skip [OF l] Cons.prems(1)])
      have "collectLoop env m2 ic paths (snd ?w2) = Inr (s2, o2)"
        using Cons.prems(2) Some True by (cases ?w2) (auto split: option.splits)
      moreover have "collectLoop env m1 ic paths (snd ?w1) = Inr (s1, o1)"
        using Cons.prems(3) Some True by (cases ?w1) (auto split: option.splits)
      ultimately show ?thesis using Cons.IH [OF b] by blast
    next
      case False
      let ?a = "Abs env path"
      have e2: "collectLoop env m2 ic paths
                 (if \<not> ShouldExclude m2 ?a False then addFile ?a st2 else st2) = Inr (s2, o2)"
        using Cons.prems(2) Some False by (auto simp: Let_def addFile_def)
      have e1: "collectLoop env m1 ic paths
                 (if \<not> ShouldExclude m1 ?a False then addFile ?a st1 else st1) = Inr (s1, o1)"
        using Cons.prems(3) Some False by (auto simp: Let_def addFile_def)
      have b: "behind (if \<not> ShouldExclude m2 ?a False then addFile ?a st2 else st2)
                      (if \<not> ShouldExclude m1 ?a False then addFile ?a st1 else st1)"
        using l Cons.prems(1)
        by (auto simp: larger_def behind_addFile_both behind_addFile_first)
      show ?thesis using Cons.IH [OF b e2 e1] .
    qed
  qed
qed

text \<open>
  C8. With the same file system, tokens, gitignore rule set and case flag, a matcher whose
  ad-hoc patterns include those of another excludes at least what the other excludes, and
  every path that \<open>CollectFiles\<close> returns under the larger matcher it also returns under the
  smaller one.
\<close>

theorem more_exclude_patterns_collect_less:
  assumes "gitignoreMatcher m2 = gitignoreMatcher m1" and "ignoreCase m2 = ignoreCase m1"
    and "set (globPatterns m1) \<subseteq> set (globPatterns m2)"
  shows "(ShouldExclude m1 p d \<longrightarrow> ShouldExclude m2 p d)
     \<and> (\<exists>files2 out2 files1 out1.
           CollectFiles env paths m2 ic = Inr (files2, out2)
         \<and> CollectFiles env paths m1 ic = Inr (files1, out1)
         \<and> set files2 \<subseteq> set files1 \<and> length files2 \<le> length files1)"
proof
  show "ShouldExclude m1 p d \<longrightarrow> ShouldExclude m2 p d"
    using ShouldExclude_mono [OF assms] by blast
next
  let ?st0 = "\<lparr>seen = {}, result = []\<rparr>"
  have l: "larger m2 m1" unfolding larger_def using ShouldExclude_mono [OF assms] by blast
  have b0: "behind ?st0 ?st0" by (simp add: behind_def)
  obtain s2 o2 where r2: "collectLoop env m2 ic paths ?st0 = Inr (s2, o2)" and i2: "collect_inv m2 s2"
    using collectLoop_total_inv [of m2 ?st0 env ic paths] by (auto simp: collect_inv_def)
  obtain s1 o1 where r1: "collectLoop env m1 ic paths ?st0 = Inr (s1, o1)" and i1: "collect_inv m1 s1"
    using collectLoop_total_inv [of m1 ?st0 env ic paths] by (auto simp: collect_inv_def)
  have sub: "set (result s2) \<subseteq> set (result s1)"
    using collectLoop_lockstep [OF l b0 r2 r1] by (simp add: behind_def)
  have "card (set (result s2)) \<le> card (set (result s1))"
    using sub by (simp add: card_mono)
  then have len: "length (result s2) \<le> length (result s1)"
    using i2 i1 by (simp add: collect_inv_def distinct_card)
  show "\<exists>files2 out2 files1 out1.
           CollectFiles env paths m2 ic = Inr (files2, out2)
         \<and> CollectFiles env paths m1 ic = Inr (files1, out1)
         \<and> set files2 \<subseteq> set files1 \<and> length files2 \<le> length files1"
    using r2 r1 sub len by (simp add: CollectFiles_def)
qed

theorem more_exclude_patterns_collect_less_witness:
  "CollectFiles example_env [''src'', ''a.txt'']
      \<lparr>gitignoreMatcher = None, globPatterns = [''*.log'', ''a.txt''], ignoreCase = False\<rparr> False
     = Inr ([''/w/src/app.go''], [])
   \<and> CollectFiles example_env [''src'', ''a.txt'']
      \<lparr>gitignoreMatcher = None, globPatterns = [''*.log''], ignoreCase = False\<rparr> False
     = Inr ([''/w/src/app.go'', ''/w/a.txt''], [])
   \<and> set (collected (CollectFiles example_env [''src'', ''a.txt'']
      \<lparr>gitignoreMatcher = None, globPatterns = [''*.log'', ''a.txt''], ignoreCase = False\<rparr> False))
     \<subseteq> set (collected (CollectFiles example_env [''src'', ''a.txt'']
      \<lparr>gitignoreMatcher = None, globPatterns = [''*.log''], ignoreCase = False\<rparr> False))"
proof -
  let ?m2 = "\<lparr>gitignoreMatcher = None, globPatterns = [''*.log'', ''a.txt''], ignoreCase = False\<rparr>"
  let ?m1 = "\<lparr>gitignoreMatcher = None, globPatterns = [''*.log''], ignoreCase = False\<rparr>"
  have e2: "CollectFiles example_env [''src'', ''a.txt''] ?m2 False = Inr ([''/w/src/app.go''], [])"
    by code_simp
  have e1: "CollectFiles example_env [''src'', ''a.txt''] ?m1 False
              = Inr ([''/w/src/app.go'', ''/w/a.txt''], [])"
    by code_simp
  have g: "gitignoreMatcher ?m2 = gitignoreMatcher ?m1" by simp
  have c: "ignoreCase ?m2 = ignoreCase ?m1" by simp
  have s: "set (globPatterns ?m1) \<subseteq> set (globPatterns ?m2)" by simp
  show ?thesis
    using more_exclude_patterns_collect_less [OF g c s, of "''a.txt''" False example_env "[''src'', ''a.txt'']" False]
      e2 e1
    by (auto simp: collected_def)
qed

section \<open>Candidate paths as the collector supplies them\<close>

text \<open>
  C1. For the pattern \<open>cache/\<close> the test for the directory itself compares the whole
  candidate path with the name. A directory named \<open>cache\<close> below the root (\<open>src/cache\<close>) is not
  matched, and neither is the directory \<open>cache\<close> of the working directory \<open>/w\<close> under the
  absolute path \<open>/w/cache\<close> that \<open>CollectFiles\<close> passes; only the relative path \<open>cache\<close> is.
  What lies under a directory of that name is excluded in every case.
\<close>

theorem bare_directory_pattern_misses_directory_itself:
  "\<not> ShouldExclude \<lparr>gitignoreMatcher = None, globPatterns = [''cache/''], ignoreCase = False\<rparr>
        ''src/cache'' True
   \<and> \<not> ShouldExclude \<lparr>gitignoreMatcher = None, globPatterns = [''cache/''], ignoreCase = False\<rparr>
        ''/w/cache'' True
   \<and> ShouldExclude \<lparr>gitignoreMatcher = None, globPatterns = [''cache/''], ignoreCase = False\<rparr>
        ''cache'' True
   \<and> ShouldExclude \<lparr>gitignoreMatcher = None, globPatterns = [''cache/''], ignoreCase = False\<rparr>
        ''src/cache/file.dat'' False
   \<and> ShouldExclude \<lparr>gitignoreMatcher = None, globPatterns = [''cache/''], ignoreCase = False\<rparr>
        ''/w/src/cache/file.dat'' False"
  by code_simp

definition two_dirs_env :: os_env where
  "two_dirs_env =
     \<lparr>getwd = ''/w'',
      stat = (\<lambda>p. if p = ''.'' then Some (Dir [(''a'', Dir [(''test.go'', File)]),
                                                (''b'', Dir [(''test.go'', File)])])
                  else None),
      doublestarMatch = (\<lambda>pattern target. None)\<rparr>"

text \<open>
  C2. The pattern \<open>a/test.go\<close> matches the relative path \<open>a/test.go\<close>, but \<open>CollectFiles\<close>
  passes the absolute path \<open>/w/a/test.go\<close>, on which \<open>filepath.Rel(".", path)\<close> fails, so the
  pattern is compared with the absolute path and excludes nothing: the walk over the
  working directory \<open>/w\<close> with \<open>a/test.go\<close> and \<open>b/test.go\<close> returns both files. The pattern
  \<open>test.go\<close>, compared with the basename, excludes both, and no directory.
\<close>

theorem path_pattern_misses_absolute_candidates:
  "ShouldExclude \<lparr>gitignoreMatcher = None, globPatterns = [''a/test.go''], ignoreCase = False\<rparr>
      ''a/test.go'' False
   \<and> \<not> ShouldExclude \<lparr>gitignoreMatcher = None, globPatterns = [''a/test.go''], ignoreCase = False\<rparr>
        ''/w/a/test.go'' False
   \<and> CollectFiles two_dirs_env [''.'']
        \<lparr>gitignoreMatcher = None, globPatterns = [''a/test.go''], ignoreCase = False\<rparr> False
      = Inr ([''/w/a/test.go'', ''/w/b/test.go''], [])
   \<and> CollectFiles two_dirs_env [''.'']
        \<lparr>gitignoreMatcher = None, globPatterns = [''test.go''], ignoreCase = False\<rparr> False
      = Inr ([], [])"
  by code_simp

definition dotted_env :: os_env where
  "dotted_env =
     \<lparr>getwd = ''/w'',
      stat = (\<lambda>p. if p = ''.'' then Some (Dir [(''a'', Dir [(''test.go'', File)]), (''a.b'', File)])
                  else None),
      doublestarMatch = (\<lambda>pattern target. None)\<rparr>"

text \<open>
  C6. \<open>CollectFiles\<close> appends each path when it first meets it and never sorts. Two file
  tokens given in descending order come back in that order, and the walk over one
  directory, which visits \<open>a/test.go\<close> before \<open>a.b\<close>, returns \<open>/w/a/test.go\<close> before \<open>/w/a.b\<close>,
  although \<open>/w/a.b\<close> is the smaller string. Neither list is sorted.
\<close>

theorem CollectFiles_result_not_sorted:
  "CollectFiles example_env [''b.txt'', ''a.txt'']
      \<lparr>gitignoreMatcher = None, globPatterns = [], ignoreCase = False\<rparr> False
     = Inr ([''/w/b.txt'', ''/w/a.txt''], [])
   \<and> \<not> sorted [''/w/b.txt'', ''/w/a.txt'']
   \<and> CollectFiles dotted_env [''.'']
      \<lparr>gitignoreMatcher = None, globPatterns = [], ignoreCase = False\<rparr> False
     = Inr ([''/w/a/test.go'', ''/w/a.b''], [])
   \<and> \<not> sorted [''/w/a/test.go'', ''/w/a.b'']"
  by code_simp

end
